theory Spec2Isabelle
  imports Main "HOL-Library.Log_Nat" "HOL-Library.AList"
begin

section \<open>Binary64 arithmetic as used by the allocator\<close>

text \<open>
  The allocator of \<^verbatim>\<open>BVAC_v1.4.py\<close> (and, line for line, of \<^verbatim>\<open>BVAC_v1.3.py\<close>)
  computes with Python floats: the share literals, the redistribution of the turret
  share, the product \<^verbatim>\<open>total_armour_points * pct\<close> and the quotient \<^verbatim>\<open>n / 5\<close> are all
  IEEE 754 binary64 operations, each the exact result rounded to the nearest double, ties
  to even. A finite double is modelled by the rational it denotes and every operation by
  the exact rational operation followed by \<open>fl\<close>.

  \<open>expo x\<close> is the binary exponent of a positive rational: \<open>2 powi expo x \<le> x < 2 powi (expo x + 1)\<close>.
  \<open>quantum x\<close> is the exponent of the spacing of the doubles around \<open>x\<close>: 53 significant
  bits in the normal range and the fixed spacing \<open>2 powi - 1074\<close> of the subnormal numbers
  below it. \<open>fl\<close> rounds to that grid. It has no upper limit of its own: the one place
  where the source can leave the finite range is the conversion of the integer total to a
  float, which \<open>int_to_float\<close> guards as CPython does, by raising \<^verbatim>\<open>OverflowError\<close>.
  Every later value is bounded by the converted total, since all shares are below 1.
\<close>

definition round_half_even :: "rat \<Rightarrow> int" where
  "round_half_even x =
     (let f = \<lfloor>x\<rfloor>; d = x - of_int f
      in if d < 1 / 2 then f else if 1 / 2 < d then f + 1 else if even f then f else f + 1)"

definition expo :: "rat \<Rightarrow> int" where
  "expo x = (if 1 \<le> x then bitlen \<lfloor>x\<rfloor> - 1 else - bitlen (\<lceil>1 / x\<rceil> - 1))"

definition quantum :: "rat \<Rightarrow> int" where
  "quantum x = max (expo \<bar>x\<bar> - 52) (- 1074)"

definition fl :: "rat \<Rightarrow> rat" where
  "fl x =
     (if x = 0 then 0
      else of_int (round_half_even (x / 2 powi quantum x)) * 2 powi quantum x)"

datatype error = OverflowError | KeyError

definition int_to_float :: "int \<Rightarrow> error + rat" where
  "int_to_float n =
     (let x = fl (of_int n) in if 2 ^ 1024 \<le> \<bar>x\<bar> then Inl OverflowError else Inr x)"

section \<open>The two rounding helpers\<close>

text \<open>
  \<^verbatim>\<open>round_to_nearest_5(n) = 5 * round(n / 5)\<close> and \<^verbatim>\<open>round_up_to_5(n) = 5 * math.ceil(n / 5)\<close>.
  The quotient is a float division; \<^verbatim>\<open>round\<close> with one argument and \<^verbatim>\<open>math.ceil\<close> return
  exact Python integers, \<^verbatim>\<open>round\<close> taking ties to the even neighbour.
\<close>

definition round_to_nearest_5 :: "rat \<Rightarrow> int" where
  "round_to_nearest_5 n = 5 * round_half_even (fl (n / 5))"

definition round_up_to_5 :: "rat \<Rightarrow> int" where
  "round_up_to_5 n = 5 * \<lceil>fl (n / 5)\<rceil>"

section \<open>The allocator\<close>

text \<open>
  A Python dict keeps its keys in insertion order, and the allocator depends on that
  order, so a dict is an association list: \<open>map_of\<close> reads a key, \<open>AList.update\<close> assigns
  to it in place (or appends a new key at the end), \<open>AList.delete\<close> removes it.
\<close>

type_synonym 'v dict = "(string \<times> 'v) list"

definition base_distribution :: "rat dict" where
  "base_distribution =
     [(''Front'', fl (30 / 100)),
      (''Left Side'', fl (208 / 1000)),
      (''Right Side'', fl (208 / 1000)),
      (''Rear'', fl (117 / 1000)),
      (''Turret'', fl (167 / 1000))]"

text \<open>
  Lines 62 to 68: the copy of the base table, with the turret entry popped and its share
  divided by the number of remaining entries and added to each of them.
\<close>

definition distribution_percent :: "bool \<Rightarrow> error + rat dict" where
  "distribution_percent remove_turret =
     (if remove_turret then
        (case map_of base_distribution ''Turret'' of
           None \<Rightarrow> Inl KeyError
         | Some turret_share \<Rightarrow>
             let d = AList.delete ''Turret'' base_distribution
             in Inr (map (\<lambda>(loc, pct). (loc, fl (pct + fl (turret_share / of_nat (length d))))) d))
      else Inr base_distribution)"

text \<open>
  Line 71: every product converts the integer total to a float first, which is where a
  total beyond the range of a double raises.
\<close>

definition raw_allocations :: "int \<Rightarrow> rat dict \<Rightarrow> error + rat dict" where
  "raw_allocations total_armour_points dp =
     (case int_to_float total_armour_points of
        Inl e \<Rightarrow> Inl e
      | Inr t \<Rightarrow> Inr (map (\<lambda>(loc, pct). (loc, fl (t * pct))) dp))"

text \<open>
  Lines 79 to 83: one pass over the keys of the share table, adding one point to each
  facing and stopping early once nothing is left over.
\<close>

fun distribute_leftover :: "string list \<Rightarrow> int dict \<Rightarrow> int \<Rightarrow> error + int dict" where
  "distribute_leftover [] armour_distribution leftover = Inr armour_distribution"
| "distribute_leftover (loc # locs) armour_distribution leftover =
     (if leftover = 0 then Inr armour_distribution
      else case map_of armour_distribution loc of
             None \<Rightarrow> Inl KeyError
           | Some v \<Rightarrow>
               distribute_leftover locs (AList.update loc (v + 1) armour_distribution)
                 (leftover - 1))"

text \<open>Lines 75 to 83, the branch \<^verbatim>\<open>if not round_each\<close>.\<close>

definition default_policy :: "int \<Rightarrow> string list \<Rightarrow> rat dict \<Rightarrow> error + int dict" where
  "default_policy total_armour_points locs raw =
     (let armour_distribution = map (\<lambda>(loc, points). (loc, round_half_even points)) raw;
          allocated = sum_list (map snd armour_distribution);
          leftover = total_armour_points - allocated
      in if 0 < leftover then distribute_leftover locs armour_distribution leftover
         else Inr armour_distribution)"

text \<open>Lines 86 to 93: the per-facing rounding of the coarse branch and its sum.\<close>

definition rounded_allocations :: "rat dict \<Rightarrow> int dict" where
  "rounded_allocations raw =
     map (\<lambda>(loc, points).
            (loc, if loc = ''Front'' then round_up_to_5 points else round_to_nearest_5 points))
       raw"

definition total_rounded :: "int dict \<Rightarrow> int" where
  "total_rounded r = sum_list (map snd r)"

text \<open>Lines 95 to 105: the reconciliation of the coarse branch.\<close>

definition reconcile :: "int \<Rightarrow> int dict \<Rightarrow> error + int dict" where
  "reconcile total_armour_points r =
     (if total_armour_points < total_rounded r then
        let overage = total_rounded r - total_armour_points
        in if (case map_of r ''Rear'' of None \<Rightarrow> False | Some rear \<Rightarrow> overage \<le> rear) then
             (case map_of r ''Rear'' of
                None \<Rightarrow> Inl KeyError
              | Some rear \<Rightarrow> Inr (AList.update ''Rear'' (rear - overage) r))
           else
             let deficit = overage - (case map_of r ''Rear'' of None \<Rightarrow> 0 | Some rear \<Rightarrow> rear);
                 r1 = AList.update ''Rear'' 0 r
             in (case map_of r1 ''Turret'' of
                   None \<Rightarrow> Inr r1
                 | Some turret \<Rightarrow> Inr (AList.update ''Turret'' (max 0 (turret - deficit)) r1))
      else if total_rounded r < total_armour_points then
        (case map_of r ''Front'' of
           None \<Rightarrow> Inl KeyError
         | Some front \<Rightarrow>
             Inr (AList.update ''Front'' (front + (total_armour_points - total_rounded r)) r))
      else Inr r)"

definition calculate_armour_distribution :: "int \<Rightarrow> bool \<Rightarrow> bool \<Rightarrow> error + int dict" where
  "calculate_armour_distribution total_armour_points round_each remove_turret =
     (case distribution_percent remove_turret of
        Inl e \<Rightarrow> Inl e
      | Inr dp \<Rightarrow>
          (case raw_allocations total_armour_points dp of
             Inl e \<Rightarrow> Inl e
           | Inr raw \<Rightarrow>
               if \<not> round_each then default_policy total_armour_points (map fst dp) raw
               else reconcile total_armour_points (rounded_allocations raw)))"

text \<open>
  The value of the variable \<^verbatim>\<open>raw_allocations\<close> after line 71, as a function of the
  two inputs it depends on. Both branches of the allocator start from it.
\<close>

definition raw_for :: "int \<Rightarrow> bool \<Rightarrow> error + rat dict" where
  "raw_for total_armour_points remove_turret =
     (case distribution_percent remove_turret of
        Inl e \<Rightarrow> Inl e
      | Inr dp \<Rightarrow> raw_allocations total_armour_points dp)"

text \<open>
  The value of the variable \<^verbatim>\<open>rounded_allocations\<close> after line 91, before the coarse
  branch reconciles it, and the value of \<^verbatim>\<open>armour_distribution\<close> after line 75, before
  the default branch hands out what is left over.
\<close>

definition rounded_for :: "int \<Rightarrow> bool \<Rightarrow> error + int dict" where
  "rounded_for total_armour_points remove_turret =
     (case raw_for total_armour_points remove_turret of
        Inl e \<Rightarrow> Inl e
      | Inr raw \<Rightarrow> Inr (rounded_allocations raw))"

definition nearest_for :: "int \<Rightarrow> bool \<Rightarrow> error + int dict" where
  "nearest_for total_armour_points remove_turret =
     (case raw_for total_armour_points remove_turret of
        Inl e \<Rightarrow> Inl e
      | Inr raw \<Rightarrow> Inr (map (\<lambda>(loc, points). (loc, round_half_even points)) raw))"

section \<open>Evaluating the model on numerals\<close>

text \<open>
  The simplifier computes the floor, the ceiling and the bit length of a literal with the
  rules below, and unfolds the float operations only once their argument is a literal,
  so that a concrete call of the allocator is evaluated from the inside out.
\<close>

lemma floor_rat_numeral [simp]:
  "\<lfloor>numeral a / numeral b :: rat\<rfloor> = numeral a div numeral b"
  "\<lfloor>- (numeral a / numeral b) :: rat\<rfloor> = - numeral a div numeral b"
  "\<lfloor>1 / numeral b :: rat\<rfloor> = 1 div numeral b"
  "\<lfloor>- (1 / numeral b) :: rat\<rfloor> = - 1 div numeral b"
proof -
  show "\<lfloor>numeral a / numeral b :: rat\<rfloor> = numeral a div numeral b"
    using floor_divide_of_int_eq [of "numeral a" "numeral b", where ?'a = rat] by simp
  show "\<lfloor>- (numeral a / numeral b) :: rat\<rfloor> = - numeral a div numeral b"
    using floor_divide_of_int_eq [of "- numeral a" "numeral b", where ?'a = rat] by simp
  show "\<lfloor>1 / numeral b :: rat\<rfloor> = 1 div numeral b"
    using floor_divide_of_int_eq [of 1 "numeral b", where ?'a = rat] by simp
  show "\<lfloor>- (1 / numeral b) :: rat\<rfloor> = - 1 div numeral b"
    using floor_divide_of_int_eq [of "- 1" "numeral b", where ?'a = rat] by simp
qed

lemma ceiling_rat_numeral [simp]:
  "\<lceil>numeral a / numeral b :: rat\<rceil> = - (- numeral a div numeral b)"
  "\<lceil>- (numeral a / numeral b) :: rat\<rceil> = - (numeral a div numeral b)"
  "\<lceil>1 / numeral b :: rat\<rceil> = - (- 1 div numeral b)"
  "\<lceil>- (1 / numeral b) :: rat\<rceil> = - (1 div numeral b)"
  unfolding ceiling_def by simp_all

lemma bitlen_numeral [simp]:
  "bitlen 1 = 1"
  "bitlen (numeral (Num.Bit0 n)) = bitlen (numeral n) + 1"
  "bitlen (numeral (Num.Bit1 n)) = bitlen (numeral n) + 1"
  "bitlen (- numeral n) = 0"
proof -
  show "bitlen 1 = 1" by (simp add: compute_bitlen)
  have "bitlen (numeral (Num.Bit0 n)) = bitlen (numeral (Num.Bit0 n) div 2) + 1"
    by (subst compute_bitlen) simp
  then show "bitlen (numeral (Num.Bit0 n)) = bitlen (numeral n) + 1" by simp
  have "bitlen (numeral (Num.Bit1 n)) = bitlen (numeral (Num.Bit1 n) div 2) + 1"
    by (subst compute_bitlen) simp
  then show "bitlen (numeral (Num.Bit1 n)) = bitlen (numeral n) + 1" by simp
  show "bitlen (- numeral n) = 0" by (simp add: bitlen_eq_zero_iff)
qed

lemmas fl_numeral =
  fl_def [of "numeral a / numeral b"] fl_def [of "numeral a"] fl_def [of "- numeral a"]
   fl_def [of "- (numeral a / numeral b)"] fl_def [of 0] fl_def [of 1]
   fl_def [of "1 / numeral b"] fl_def [of "- 1"] fl_def [of "- (1 / numeral b)"]
  for a b

lemmas quantum_numeral =
  quantum_def [of "numeral a / numeral b"] quantum_def [of "numeral a"]
   quantum_def [of "- numeral a"] quantum_def [of "- (numeral a / numeral b)"]
   quantum_def [of 0] quantum_def [of 1] quantum_def [of "1 / numeral b"]
   quantum_def [of "- 1"] quantum_def [of "- (1 / numeral b)"]
  for a b

lemmas expo_numeral =
  expo_def [of "numeral a / numeral b"] expo_def [of "numeral a"]
   expo_def [of "- numeral a"] expo_def [of "- (numeral a / numeral b)"] expo_def [of 0]
   expo_def [of 1] expo_def [of "1 / numeral b"] expo_def [of "- 1"]
   expo_def [of "- (1 / numeral b)"]
  for a b

lemmas round_half_even_numeral =
  round_half_even_def [of "numeral a / numeral b"] round_half_even_def [of "numeral a"]
   round_half_even_def [of "- numeral a"]
   round_half_even_def [of "- (numeral a / numeral b)"] round_half_even_def [of 0]
   round_half_even_def [of 1] round_half_even_def [of "1 / numeral b"]
   round_half_even_def [of "- 1"] round_half_even_def [of "- (1 / numeral b)"]
  for a b

lemmas round_up_to_5_numeral =
  round_up_to_5_def [of "numeral a / numeral b"] round_up_to_5_def [of "numeral a"]
   round_up_to_5_def [of "- numeral a"] round_up_to_5_def [of "- (numeral a / numeral b)"]
   round_up_to_5_def [of 0] round_up_to_5_def [of 1] round_up_to_5_def [of "1 / numeral b"]
   round_up_to_5_def [of "- 1"] round_up_to_5_def [of "- (1 / numeral b)"]
  for a b

lemmas round_to_nearest_5_numeral =
  round_to_nearest_5_def [of "numeral a / numeral b"]
   round_to_nearest_5_def [of "numeral a"] round_to_nearest_5_def [of "- numeral a"]
   round_to_nearest_5_def [of "- (numeral a / numeral b)"] round_to_nearest_5_def [of 0]
   round_to_nearest_5_def [of 1] round_to_nearest_5_def [of "1 / numeral b"]
   round_to_nearest_5_def [of "- 1"] round_to_nearest_5_def [of "- (1 / numeral b)"]
  for a b

lemmas eval_defs =
  calculate_armour_distribution_def distribution_percent_def base_distribution_def
  raw_allocations_def int_to_float_def default_policy_def rounded_allocations_def
  total_rounded_def reconcile_def raw_for_def rounded_for_def nearest_for_def Let_def
  fl_numeral quantum_numeral expo_numeral round_half_even_numeral round_up_to_5_numeral
  round_to_nearest_5_numeral

section \<open>Basic facts\<close>

subsection \<open>Association lists\<close>

lemma update_set:
  "(k', v') \<in> set (AList.update k v al) \<Longrightarrow> (k', v') = (k, v) \<or> (k', v') \<in> set al"
  by (induction al) (auto split: if_splits)

lemma update_present_keys:
  "map_of al k = Some v0 \<Longrightarrow> map fst (AList.update k v al) = map fst al"
  by (induction al) (auto split: if_splits)

lemma update_sum:
  fixes al :: "('k \<times> int) list"
  shows "map_of al k = Some v0 \<Longrightarrow> distinct (map fst al) \<Longrightarrow>
   sum_list (map snd (AList.update k v al)) = sum_list (map snd al) - v0 + v"
proof (induction al)
  case Nil
  then show ?case by simp
next
  case (Cons p al)
  obtain k' w where p: "p = (k', w)" by (cases p)
  show ?case
  proof (cases "k' = k")
    case True
    with Cons.prems p show ?thesis by simp
  next
    case False
    with Cons p show ?thesis by simp
  qed
qed

lemma update_middle:
  "loc \<notin> fst ` set pre \<Longrightarrow>
   AList.update loc w (pre @ (loc, v) # suf) = pre @ (loc, w) # suf"
  by (induction pre) auto

lemma map_of_middle:
  "loc \<notin> fst ` set pre \<Longrightarrow> map_of (pre @ (loc, v) # suf) loc = Some v"
  by (induction pre) auto

subsection \<open>Keys and shape of the tables\<close>

lemma dp_False: "distribution_percent False = Inr base_distribution"
  by (simp add: distribution_percent_def)

lemma dp_True:
  "distribution_percent True =
     Inr [(''Front'', fl (fl (30 / 100) + fl (fl (167 / 1000) / 4))),
          (''Left Side'', fl (fl (208 / 1000) + fl (fl (167 / 1000) / 4))),
          (''Right Side'', fl (fl (208 / 1000) + fl (fl (167 / 1000) / 4))),
          (''Rear'', fl (fl (117 / 1000) + fl (fl (167 / 1000) / 4)))]"
  by (simp add: distribution_percent_def base_distribution_def)

lemma dp_keys:
  "\<exists>dp. distribution_percent rt = Inr dp \<and>
     map fst dp = (if rt then [''Front'', ''Left Side'', ''Right Side'', ''Rear'']
                   else [''Front'', ''Left Side'', ''Right Side'', ''Rear'', ''Turret''])"
  by (cases rt) (simp_all add: dp_True dp_False base_distribution_def)

lemma raw_allocations_keys:
  "raw_allocations T dp = Inr raw \<Longrightarrow> map fst raw = map fst dp"
  by (auto simp: raw_allocations_def split: sum.splits)

lemma raw_for_keys:
  assumes "raw_for T rt = Inr raw"
  shows "map fst raw = (if rt then [''Front'', ''Left Side'', ''Right Side'', ''Rear'']
                        else [''Front'', ''Left Side'', ''Right Side'', ''Rear'', ''Turret''])"
proof -
  obtain dp where dp: "distribution_percent rt = Inr dp"
    and k: "map fst dp = (if rt then [''Front'', ''Left Side'', ''Right Side'', ''Rear'']
                   else [''Front'', ''Left Side'', ''Right Side'', ''Rear'', ''Turret''])"
    using dp_keys by blast
  from assms dp have "raw_allocations T dp = Inr raw" by (simp add: raw_for_def)
  then have "map fst raw = map fst dp" by (rule raw_allocations_keys)
  with k show ?thesis by simp
qed

lemma calc_default:
  assumes "raw_for T rt = Inr raw"
  shows "calculate_armour_distribution T False rt = default_policy T (map fst raw) raw"
proof -
  obtain dp where dp: "distribution_percent rt = Inr dp" using dp_keys by blast
  from assms dp have r: "raw_allocations T dp = Inr raw" by (simp add: raw_for_def)
  then have "map fst raw = map fst dp" by (rule raw_allocations_keys)
  with dp r show ?thesis by (simp add: calculate_armour_distribution_def)
qed

lemma calc_coarse:
  assumes "raw_for T rt = Inr raw"
  shows "calculate_armour_distribution T True rt = reconcile T (rounded_allocations raw)"
proof -
  obtain dp where dp: "distribution_percent rt = Inr dp" using dp_keys by blast
  from assms dp have r: "raw_allocations T dp = Inr raw" by (simp add: raw_for_def)
  with dp show ?thesis by (simp add: calculate_armour_distribution_def)
qed

lemma calc_error:
  assumes "raw_for T rt = Inl e"
  shows "calculate_armour_distribution T re rt = Inl e"
proof -
  obtain dp where dp: "distribution_percent rt = Inr dp" using dp_keys by blast
  from assms dp have r: "raw_allocations T dp = Inl e" by (simp add: raw_for_def)
  with dp show ?thesis by (simp add: calculate_armour_distribution_def)
qed

lemma calc_Inr_raw:
  assumes "calculate_armour_distribution T re rt = Inr res"
  shows "\<exists>raw. raw_for T rt = Inr raw"
proof (cases "raw_for T rt")
  case (Inl e)
  with assms calc_error show ?thesis by fastforce
next
  case (Inr raw)
  then show ?thesis by blast
qed

lemma rounded_keys: "map fst (rounded_allocations raw) = map fst raw"
  by (induction raw) (auto simp: rounded_allocations_def)

subsection \<open>Multiples of five\<close>






subsection \<open>Reconciliation\<close>

lemma reconcile_overage:
  assumes rear: "map_of r ''Rear'' = Some rear" and over: "T < total_rounded r"
  shows "reconcile T r =
     Inr (if total_rounded r - T \<le> rear then AList.update ''Rear'' (rear - (total_rounded r - T)) r
          else case map_of r ''Turret'' of
                 None \<Rightarrow> AList.update ''Rear'' 0 r
               | Some turret \<Rightarrow>
                   AList.update ''Turret'' (max 0 (turret - (total_rounded r - T - rear)))
                     (AList.update ''Rear'' 0 r))"
  using assms by (simp add: reconcile_def Let_def update_conv' split: option.splits)

lemma raw_for_distinct: "raw_for T rt = Inr raw \<Longrightarrow> distinct (map fst raw)"
  using raw_for_keys [of T rt raw] by (cases rt) simp_all

lemma map_of_in_keys: "k \<in> set (map fst al) \<Longrightarrow> \<exists>v. map_of al k = Some v"
  by (induction al) auto

lemma map_of_not_in_keys: "k \<notin> set (map fst al) \<Longrightarrow> map_of al k = None"
  by (induction al) auto

lemma rounded_Rear:
  assumes "raw_for T rt = Inr raw"
  shows "\<exists>rear. map_of (rounded_allocations raw) ''Rear'' = Some rear"
proof -
  have "''Rear'' \<in> set (map fst (rounded_allocations raw))"
    using raw_for_keys [OF assms] by (simp add: rounded_keys)
  then show ?thesis by (rule map_of_in_keys)
qed

lemma rounded_Front:
  assumes "raw_for T rt = Inr raw"
  shows "\<exists>front. map_of (rounded_allocations raw) ''Front'' = Some front"
proof -
  have "''Front'' \<in> set (map fst (rounded_allocations raw))"
    using raw_for_keys [OF assms] by (simp add: rounded_keys)
  then show ?thesis by (rule map_of_in_keys)
qed

lemma rounded_Turret:
  assumes "raw_for T rt = Inr raw"
  shows "(\<exists>turret. map_of (rounded_allocations raw) ''Turret'' = Some turret) \<longleftrightarrow> \<not> rt"
proof (cases rt)
  case True
  then have "''Turret'' \<notin> set (map fst (rounded_allocations raw))"
    using raw_for_keys [OF assms] by (simp add: rounded_keys)
  then have "map_of (rounded_allocations raw) ''Turret'' = None" by (rule map_of_not_in_keys)
  with True show ?thesis by simp
next
  case False
  then have "''Turret'' \<in> set (map fst (rounded_allocations raw))"
    using raw_for_keys [OF assms] by (simp add: rounded_keys)
  then have "\<exists>v. map_of (rounded_allocations raw) ''Turret'' = Some v" by (rule map_of_in_keys)
  with False show ?thesis by simp
qed


subsection \<open>The two program points\<close>

lemma rounded_forD:
  "rounded_for T rt = Inr r \<Longrightarrow> \<exists>raw. raw_for T rt = Inr raw \<and> r = rounded_allocations raw"
  by (auto simp: rounded_for_def split: sum.splits)

lemma nearest_forD:
  "nearest_for T rt = Inr r \<Longrightarrow>
   \<exists>raw. raw_for T rt = Inr raw \<and> r = map (\<lambda>(loc, points). (loc, round_half_even points)) raw"
  by (auto simp: nearest_for_def split: sum.splits)

lemma nearest_keys: "map fst (map (\<lambda>(loc, points). (loc, round_half_even points)) raw) = map fst raw"
  by (induction raw) auto

lemma rounded_for_keys:
  assumes "rounded_for T rt = Inr r"
  shows "map fst r = (if rt then [''Front'', ''Left Side'', ''Right Side'', ''Rear'']
                      else [''Front'', ''Left Side'', ''Right Side'', ''Rear'', ''Turret''])"
proof -
  from assms obtain raw where raw: "raw_for T rt = Inr raw" and r: "r = rounded_allocations raw"
    using rounded_forD by blast
  show ?thesis unfolding r rounded_keys using raw by (rule raw_for_keys)
qed


lemma calc_coarse_rounded:
  assumes "rounded_for T rt = Inr r"
  shows "calculate_armour_distribution T True rt = reconcile T r"
proof -
  from assms obtain raw where raw: "raw_for T rt = Inr raw" and r: "r = rounded_allocations raw"
    using rounded_forD by blast
  show ?thesis unfolding r using raw by (rule calc_coarse)
qed

lemma calc_default_nearest:
  assumes "nearest_for T rt = Inr r"
  shows "calculate_armour_distribution T False rt =
     (if 0 < T - sum_list (map snd r) then distribute_leftover (map fst r) r (T - sum_list (map snd r))
      else Inr r)"
proof -
  from assms obtain raw where raw: "raw_for T rt = Inr raw"
    and r: "r = map (\<lambda>(loc, points). (loc, round_half_even points)) raw"
    using nearest_forD by blast
  have k: "map fst raw = map fst r" unfolding r by (rule nearest_keys [symmetric])
  have "calculate_armour_distribution T False rt = default_policy T (map fst raw) raw"
    using raw by (rule calc_default)
  also have "\<dots> = (if 0 < T - sum_list (map snd r)
      then distribute_leftover (map fst raw) r (T - sum_list (map snd r)) else Inr r)"
    unfolding default_policy_def Let_def r ..
  finally show ?thesis unfolding k .
qed

subsection \<open>The pass over the facings\<close>

lemma distribute_leftover_gen:
  "distinct (map fst (pre @ suf)) \<Longrightarrow> 0 \<le> leftover \<Longrightarrow>
   distribute_leftover (map fst suf) (pre @ suf) leftover =
     Inr (pre @ map (\<lambda>(loc, v). (loc, v + 1)) (take (nat leftover) suf) @ drop (nat leftover) suf)"
proof (induction suf arbitrary: pre leftover)
  case Nil
  then show ?case by simp
next
  case (Cons p suf)
  obtain loc v where p: "p = (loc, v)" by (cases p)
  show ?case
  proof (cases "leftover = 0")
    case True
    then show ?thesis by (simp add: p)
  next
    case False
    with Cons.prems have pos: "0 < leftover" by simp
    then have n: "nat leftover = Suc (nat (leftover - 1))" by simp
    from Cons.prems p have notin: "loc \<notin> fst ` set pre" by auto
    have d: "distinct (map fst ((pre @ [(loc, v + 1)]) @ suf))" using Cons.prems p by auto
    have m: "map_of (pre @ (loc, v) # suf) loc = Some v" using notin by (rule map_of_middle)
    have u: "AList.update loc (v + 1) (pre @ (loc, v) # suf) = pre @ (loc, v + 1) # suf"
      using notin by (rule update_middle)
    have "distribute_leftover (map fst (p # suf)) (pre @ p # suf) leftover =
          distribute_leftover (map fst suf) (pre @ (loc, v + 1) # suf) (leftover - 1)"
      by (simp only: p list.map fst_conv distribute_leftover.simps m u False if_False option.case)
    also have "\<dots> = distribute_leftover (map fst suf) ((pre @ [(loc, v + 1)]) @ suf) (leftover - 1)"
      by simp
    also have "\<dots> = Inr ((pre @ [(loc, v + 1)]) @ map (\<lambda>(loc, v). (loc, v + 1))
        (take (nat (leftover - 1)) suf) @ drop (nat (leftover - 1)) suf)"
      using d pos by (intro Cons.IH) simp_all
    finally show ?thesis by (simp add: p n del: nat_diff_distrib)
  qed
qed

lemma distribute_leftover_all:
  "distinct (map fst d) \<Longrightarrow> 0 \<le> leftover \<Longrightarrow>
   distribute_leftover (map fst d) d leftover =
     Inr (map (\<lambda>(loc, v). (loc, v + 1)) (take (nat leftover) d) @ drop (nat leftover) d)"
  using distribute_leftover_gen [of "[]" d leftover] by simp

lemma bump_keys: "map fst (map (\<lambda>(loc, v). (loc, v + 1)) xs) = map fst xs"
  by (induction xs) auto



subsection \<open>The keys of the result\<close>

lemma reconcile_shortfall:
  assumes "map_of r ''Front'' = Some front" and "total_rounded r < T"
  shows "reconcile T r = Inr (AList.update ''Front'' (front + (T - total_rounded r)) r)"
  using assms by (simp add: reconcile_def)

lemma reconcile_exact: "total_rounded r = T \<Longrightarrow> reconcile T r = Inr r"
  by (simp add: reconcile_def)

lemma reconcile_keys:
  assumes rear: "map_of r ''Rear'' = Some rear" and front: "map_of r ''Front'' = Some front"
  shows "\<exists>res. reconcile T r = Inr res \<and> map fst res = map fst r"
proof -
  have r0: "map fst (AList.update ''Rear'' 0 r) = map fst r"
    using rear by (rule update_present_keys)
  consider "T < total_rounded r" | "total_rounded r < T" | "total_rounded r = T" by linarith
  then show ?thesis
  proof cases
    case 1
    show ?thesis
    proof (cases "map_of r ''Turret''")
      case None
      then show ?thesis
        unfolding reconcile_overage [OF rear 1] using r0 update_present_keys [OF rear]
        by simp
    next
      case (Some turret)
      then have "map_of (AList.update ''Rear'' 0 r) ''Turret'' = Some turret"
        by (simp add: update_conv')
      then have "map fst (AList.update ''Turret'' v (AList.update ''Rear'' 0 r)) = map fst r" for v
        using r0 update_present_keys by metis
      with Some show ?thesis
        unfolding reconcile_overage [OF rear 1] using update_present_keys [OF rear]
        by simp
    qed
  next
    case 2
    show ?thesis
      unfolding reconcile_shortfall [OF front 2] using update_present_keys [OF front] by simp
  next
    case 3
    then show ?thesis by (simp add: reconcile_exact)
  qed
qed

lemma calc_coarse_keys:
  assumes "raw_for T rt = Inr raw"
  shows "\<exists>res. calculate_armour_distribution T True rt = Inr res \<and> map fst res = map fst raw"
proof -
  obtain rear where rear: "map_of (rounded_allocations raw) ''Rear'' = Some rear"
    using rounded_Rear [OF assms] by blast
  obtain front where front: "map_of (rounded_allocations raw) ''Front'' = Some front"
    using rounded_Front [OF assms] by blast
  show ?thesis
    unfolding calc_coarse [OF assms] using reconcile_keys [OF rear front, of T]
    by (simp add: rounded_keys)
qed

lemma calc_default_keys:
  assumes "raw_for T rt = Inr raw"
  shows "\<exists>res. calculate_armour_distribution T False rt = Inr res \<and> map fst res = map fst raw"
proof -
  define r where "r = map (\<lambda>(loc, points). (loc, round_half_even points)) raw"
  have n: "nearest_for T rt = Inr r" using assms by (simp add: nearest_for_def r_def)
  have k: "map fst r = map fst raw" unfolding r_def by (rule nearest_keys)
  have d: "distinct (map fst r)" unfolding k using assms by (rule raw_for_distinct)
  show ?thesis
  proof (cases "0 < T - sum_list (map snd r)")
    case True
    then have "0 \<le> T - sum_list (map snd r)" by simp
    from distribute_leftover_all [OF d this] True
    have "calculate_armour_distribution T False rt =
      Inr (map (\<lambda>(loc, v). (loc, v + 1)) (take (nat (T - sum_list (map snd r))) r) @
           drop (nat (T - sum_list (map snd r))) r)"
      unfolding calc_default_nearest [OF n] by simp
    moreover have "map fst (map (\<lambda>(loc, v). (loc, v + 1)) (take (nat (T - sum_list (map snd r))) r) @
           drop (nat (T - sum_list (map snd r))) r) = map fst r"
      unfolding map_append bump_keys
      by (simp only: map_append [symmetric] append_take_drop_id)
    ultimately show ?thesis using k by simp
  next
    case False
    then show ?thesis unfolding calc_default_nearest [OF n] using k by simp
  qed
qed

lemma calc_keys:
  assumes "raw_for T rt = Inr raw"
  shows "\<exists>res. calculate_armour_distribution T re rt = Inr res \<and>
     map fst res = (if rt then [''Front'', ''Left Side'', ''Right Side'', ''Rear'']
                    else [''Front'', ''Left Side'', ''Right Side'', ''Rear'', ''Turret''])"
proof -
  have "\<exists>res. calculate_armour_distribution T re rt = Inr res \<and> map fst res = map fst raw"
    using calc_coarse_keys [OF assms] calc_default_keys [OF assms] by (cases re) simp_all
  then show ?thesis unfolding raw_for_keys [OF assms] .
qed


section \<open>Properties of the float model\<close>

subsection \<open>Powers of two\<close>

lemma p2_pos: "0 < (2::rat) powi n"
  by simp

lemma p2_less_iff: "(2::rat) powi m < 2 powi n \<longleftrightarrow> m < n"
proof
  assume l: "(2::rat) powi m < 2 powi n"
  show "m < n"
  proof (rule ccontr)
    assume "\<not> m < n"
    then have "n \<le> m" by simp
    then have "(2::rat) powi n \<le> 2 powi m" by (intro power_int_increasing) simp_all
    with l show False by simp
  qed
next
  assume "m < n"
  then show "(2::rat) powi m < 2 powi n" by (intro power_int_strict_increasing) simp_all
qed

lemma p2_le_iff: "(2::rat) powi m \<le> 2 powi n \<longleftrightarrow> m \<le> n"
  using p2_less_iff [of n m] by (simp add: not_less [symmetric])

lemma p2_add: "(2::rat) powi (m + n) = 2 powi m * 2 powi n"
  by (rule power_int_add) simp

lemma p2_diff: "(2::rat) powi (m - n) = 2 powi m / 2 powi n"
  by (rule power_int_diff) simp

lemma p2_nat: "0 \<le> n \<Longrightarrow> (2::rat) powi n = 2 ^ nat n"
  by (rule power_int_nonneg_exp)

lemma of_int_le_p2: "c \<le> 2 ^ n \<Longrightarrow> (of_int c :: rat) \<le> 2 ^ n"
  using of_int_le_iff [of c "2 ^ n", where ?'a = rat] by simp

lemma p2_le_of_int: "2 ^ n \<le> c \<Longrightarrow> (2::rat) ^ n \<le> of_int c"
  using of_int_le_iff [of "2 ^ n" c, where ?'a = rat] by simp

subsection \<open>Rounding to an integer\<close>

lemma round_half_even_cases:
  "round_half_even x = \<lfloor>x\<rfloor> \<or> round_half_even x = \<lfloor>x\<rfloor> + 1"
  by (simp add: round_half_even_def Let_def)

lemma round_half_even_error: "\<bar>of_int (round_half_even x) - x\<bar> \<le> 1 / 2"
proof -
  have "of_int \<lfloor>x\<rfloor> \<le> x" and "x < of_int \<lfloor>x\<rfloor> + 1" by linarith+
  then show ?thesis by (simp add: round_half_even_def Let_def abs_if) linarith
qed

lemma round_half_even_of_int [simp]: "round_half_even (of_int n) = n"
  by (simp add: round_half_even_def)

lemma round_half_even_ge: "of_int n \<le> x \<Longrightarrow> n \<le> round_half_even x"
proof -
  assume "of_int n \<le> x"
  then have "n \<le> \<lfloor>x\<rfloor>" by (simp add: le_floor_iff)
  with round_half_even_cases [of x] show ?thesis by linarith
qed

lemma round_half_even_le: "x \<le> of_int n \<Longrightarrow> round_half_even x \<le> n"
proof (cases "x = of_int n")
  case True
  then show ?thesis by simp
next
  case False
  assume "x \<le> of_int n"
  with False have "x < of_int n" by simp
  then have "\<lfloor>x\<rfloor> < n" by (simp add: floor_less_iff)
  with round_half_even_cases [of x] show ?thesis by linarith
qed

subsection \<open>The binary exponent\<close>

lemma expo_lower: assumes "0 < x" shows "2 powi expo x \<le> x"
proof (cases "1 \<le> x")
  case True
  then have pos: "0 < \<lfloor>x\<rfloor>" by simp
  then have b: "1 \<le> bitlen \<lfloor>x\<rfloor>" by (simp add: bitlen_alt_def)
  have "(2::int) ^ nat (bitlen \<lfloor>x\<rfloor> - 1) \<le> \<lfloor>x\<rfloor>" using bitlen_bounds [OF pos] by simp
  then have "(2::rat) ^ nat (bitlen \<lfloor>x\<rfloor> - 1) \<le> of_int \<lfloor>x\<rfloor>" by (rule p2_le_of_int)
  also have "\<dots> \<le> x" by simp
  finally have "(2::rat) ^ nat (bitlen \<lfloor>x\<rfloor> - 1) \<le> x" .
  moreover have "expo x = bitlen \<lfloor>x\<rfloor> - 1" using True by (simp add: expo_def)
  ultimately show ?thesis using b by (simp add: p2_nat)
next
  case False
  with assms have x1: "x < 1" by simp
  define c where "c = \<lceil>1 / x\<rceil>"
  have "1 < 1 / x" using assms x1 by simp
  then have "1 < c" unfolding c_def by (simp add: less_ceiling_iff)
  then have pos: "0 < c - 1" by simp
  have e: "expo x = - bitlen (c - 1)" using False by (simp add: expo_def c_def)
  have "c - 1 < 2 ^ nat (bitlen (c - 1))" using bitlen_bounds [OF pos] by simp
  then have "c \<le> 2 ^ nat (bitlen (c - 1))" by simp
  then have "(of_int c :: rat) \<le> 2 ^ nat (bitlen (c - 1))" by (rule of_int_le_p2)
  moreover have "1 / x \<le> of_int c" unfolding c_def by simp
  ultimately have "1 / x \<le> 2 ^ nat (bitlen (c - 1))" by linarith
  also have "\<dots> = 2 powi bitlen (c - 1)" by (simp add: p2_nat bitlen_nonneg)
  finally have "1 / x \<le> 2 powi bitlen (c - 1)" .
  then have "1 \<le> 2 powi bitlen (c - 1) * x" using assms by (simp add: field_simps)
  then have "2 powi (- bitlen (c - 1)) \<le> x"
    by (simp add: power_int_minus field_simps)
  with e show ?thesis by simp
qed

lemma expo_upper: assumes "0 < x" shows "x < 2 powi (expo x + 1)"
proof (cases "1 \<le> x")
  case True
  then have pos: "0 < \<lfloor>x\<rfloor>" by simp
  then have b: "1 \<le> bitlen \<lfloor>x\<rfloor>" by (simp add: bitlen_alt_def)
  have "\<lfloor>x\<rfloor> < 2 ^ nat (bitlen \<lfloor>x\<rfloor>)" using bitlen_bounds [OF pos] by simp
  then have "\<lfloor>x\<rfloor> + 1 \<le> 2 ^ nat (bitlen \<lfloor>x\<rfloor>)" by simp
  then have "(of_int (\<lfloor>x\<rfloor> + 1) :: rat) \<le> 2 ^ nat (bitlen \<lfloor>x\<rfloor>)" by (rule of_int_le_p2)
  moreover have "x < of_int (\<lfloor>x\<rfloor> + 1)" by linarith
  ultimately have "x < 2 ^ nat (bitlen \<lfloor>x\<rfloor>)" by linarith
  moreover have "expo x + 1 = bitlen \<lfloor>x\<rfloor>" using True by (simp add: expo_def)
  ultimately show ?thesis using b by (simp add: p2_nat)
next
  case False
  with assms have x1: "x < 1" by simp
  define c where "c = \<lceil>1 / x\<rceil>"
  have "1 < 1 / x" using assms x1 by simp
  then have "1 < c" unfolding c_def by (simp add: less_ceiling_iff)
  then have pos: "0 < c - 1" by simp
  then have b: "1 \<le> bitlen (c - 1)" by (simp add: bitlen_alt_def)
  have e: "expo x = - bitlen (c - 1)" using False by (simp add: expo_def c_def)
  have "(2::int) ^ nat (bitlen (c - 1) - 1) \<le> c - 1" using bitlen_bounds [OF pos] by simp
  then have "(2::rat) ^ nat (bitlen (c - 1) - 1) \<le> of_int (c - 1)" by (rule p2_le_of_int)
  moreover have "of_int (c - 1) < 1 / x" unfolding c_def by linarith
  ultimately have "2 ^ nat (bitlen (c - 1) - 1) < 1 / x" by linarith
  also have "(2::rat) ^ nat (bitlen (c - 1) - 1) = 2 powi (bitlen (c - 1) - 1)"
    using b by (simp add: p2_nat)
  finally have "2 powi (bitlen (c - 1) - 1) < 1 / x" .
  then have "x < 1 / 2 powi (bitlen (c - 1) - 1)" using assms by (simp add: field_simps)
  also have "1 / 2 powi (bitlen (c - 1) - 1) = (2::rat) powi (- (bitlen (c - 1) - 1))"
    by (rule power_int_minus_divide [symmetric])
  also have "- (bitlen (c - 1) - 1) = expo x + 1" using e by simp
  finally show ?thesis .
qed

lemma expo_less: "0 < x \<Longrightarrow> x < 2 powi k \<Longrightarrow> expo x < k"
  using expo_lower [of x] p2_less_iff [of "expo x" k] by simp

lemma expo_ge: "0 < x \<Longrightarrow> 2 powi k \<le> x \<Longrightarrow> k \<le> expo x"
  using expo_upper [of x] p2_less_iff [of k "expo x + 1"] by simp


subsection \<open>Rounding to a double\<close>

lemma quantum_ge: "- 1074 \<le> quantum x" and quantum_ge_expo: "expo \<bar>x\<bar> - 52 \<le> quantum x"
  by (simp_all add: quantum_def)

lemma fl_0 [simp]: "fl 0 = 0"
  by (simp add: fl_def)

lemma fl_grid: "\<exists>m. fl x = of_int m * 2 powi quantum x"
proof (cases "x = 0")
  case True
  then have "fl x = of_int 0 * 2 powi quantum x" by simp
  then show ?thesis by blast
next
  case False
  then show ?thesis by (auto simp: fl_def)
qed

lemma fl_error: "\<bar>fl x - x\<bar> \<le> 2 powi quantum x / 2"
proof (cases "x = 0")
  case True
  then show ?thesis by simp
next
  case False
  define q :: rat where "q = 2 powi quantum x"
  have q: "0 < q" unfolding q_def by simp
  have "fl x - x = (of_int (round_half_even (x / q)) - x / q) * q"
    using False q by (simp add: fl_def q_def field_simps)
  then have "\<bar>fl x - x\<bar> = \<bar>of_int (round_half_even (x / q)) - x / q\<bar> * q"
    using q by (simp add: abs_mult)
  also have "\<dots> \<le> 1 / 2 * q"
    using round_half_even_error [of "x / q"] q by (intro mult_right_mono) simp_all
  finally show ?thesis by (simp add: q_def)
qed

lemma fl_nonneg: assumes "0 \<le> x" shows "0 \<le> fl x"
proof (cases "x = 0")
  case True
  then show ?thesis by simp
next
  case False
  have "of_int 0 \<le> x / 2 powi quantum x" using assms by simp
  then have "0 \<le> round_half_even (x / 2 powi quantum x)" by (rule round_half_even_ge)
  then show ?thesis using False by (simp add: fl_def)
qed

lemma fl_nonpos: assumes "x \<le> 0" shows "fl x \<le> 0"
proof (cases "x = 0")
  case True
  then show ?thesis by simp
next
  case False
  have "x / 2 powi quantum x \<le> of_int 0" using assms by (simp add: divide_nonpos_pos)
  then have "round_half_even (x / 2 powi quantum x) \<le> 0" by (rule round_half_even_le)
  then show ?thesis using False by (simp add: fl_def mult_nonpos_nonneg)
qed

lemma scaled_less: assumes "x \<noteq> 0" shows "\<bar>x\<bar> / 2 powi quantum x < 2 ^ 53"
proof -
  have pos: "0 < \<bar>x\<bar>" using assms by simp
  have "\<bar>x\<bar> < 2 powi (expo \<bar>x\<bar> + 1)" using pos by (rule expo_upper)
  also have "\<dots> \<le> 2 powi (quantum x + 53)"
    using quantum_ge_expo [of x] by (simp add: p2_le_iff)
  also have "\<dots> = 2 powi quantum x * 2 ^ 53" by (simp add: p2_add)
  finally show ?thesis by (simp add: field_simps)
qed

lemma fl_bound: "\<bar>fl x\<bar> \<le> 2 powi (quantum x + 53)"
proof (cases "x = 0")
  case True
  then show ?thesis by simp
next
  case False
  define y where "y = x / 2 powi quantum x"
  have "\<bar>y\<bar> < 2 ^ 53" using scaled_less [OF False] by (simp add: y_def)
  then have u: "y \<le> of_int (2 ^ 53)" and l: "of_int (- (2 ^ 53)) \<le> y" by simp_all
  have "round_half_even y \<le> 2 ^ 53" using u by (rule round_half_even_le)
  moreover have "- (2 ^ 53) \<le> round_half_even y" using l by (rule round_half_even_ge)
  ultimately have "\<bar>round_half_even y\<bar> \<le> 2 ^ 53" by simp
  then have "\<bar>of_int (round_half_even y) :: rat\<bar> \<le> of_int (2 ^ 53)"
    by (simp only: of_int_abs [symmetric] of_int_le_iff)
  then have "\<bar>of_int (round_half_even y) :: rat\<bar> * 2 powi quantum x \<le> 2 ^ 53 * 2 powi quantum x"
    by (intro mult_right_mono) simp_all
  then show ?thesis using False by (simp add: fl_def y_def abs_mult p2_add mult.commute)
qed

lemma quantum_of_int:
  assumes "n \<noteq> 0" shows "quantum (of_int n) = expo \<bar>of_int n\<bar> - 52"
proof -
  have "(2::rat) powi 0 \<le> \<bar>of_int n\<bar>" using assms by (simp flip: of_int_abs)
  then have "0 \<le> expo \<bar>of_int n :: rat\<bar>" using assms by (intro expo_ge) simp_all
  then show ?thesis by (simp add: quantum_def)
qed

lemma fl_of_int: assumes "\<bar>n\<bar> < 2 ^ 53" shows "fl (of_int n) = of_int n"
proof (cases "n = 0")
  case True
  then show ?thesis by simp
next
  case False
  define e where "e = expo \<bar>of_int n :: rat\<bar>"
  have q: "quantum (of_int n) = e - 52" unfolding e_def using False by (rule quantum_of_int)
  have "\<bar>of_int n :: rat\<bar> < 2 powi 53" using assms by (simp flip: of_int_abs)
  then have "e < 53" unfolding e_def using False by (intro expo_less) simp_all
  then have k: "0 \<le> 52 - e" by simp
  have "(of_int n :: rat) / 2 powi (e - 52) = of_int n * 2 powi (52 - e)"
    using power_int_minus_divide [of "2::rat" "e - 52"] by simp
  also have "\<dots> = of_int (n * 2 ^ nat (52 - e))" using k by (simp add: p2_nat)
  finally have "round_half_even (of_int n / 2 powi (e - 52)) = n * 2 ^ nat (52 - e)"
    by (simp only: round_half_even_of_int)
  then have "fl (of_int n) = of_int (n * 2 ^ nat (52 - e)) * 2 powi (e - 52)"
    using False by (simp add: fl_def q)
  also have "\<dots> = of_int n * (2 powi (52 - e) * 2 powi (e - 52))" using k by (simp add: p2_nat)
  also have "2 powi (52 - e) * 2 powi (e - 52) = (2::rat) powi 0" by (simp flip: p2_add)
  finally show ?thesis by simp
qed

subsection \<open>Converting the total\<close>

lemma int_to_float_small: "\<bar>T\<bar> < 2 ^ 53 \<Longrightarrow> int_to_float T = Inr (of_int T)"
proof -
  assume a: "\<bar>T\<bar> < 2 ^ 53"
  then have "\<bar>T\<bar> < 2 ^ 1024" by (rule less_trans) simp
  then have "\<bar>of_int T :: rat\<bar> < 2 ^ 1024" by (simp flip: of_int_abs)
  then show ?thesis by (simp add: int_to_float_def Let_def fl_of_int [OF a])
qed

lemma int_to_float_in_range:
  assumes "\<bar>T\<bar> < 2 ^ 1024 - 2 ^ 970"
  shows "\<exists>t. int_to_float T = Inr t \<and> (0 \<le> T \<longrightarrow> 0 \<le> t) \<and> (T \<le> 0 \<longrightarrow> t \<le> 0)"
proof -
  define x :: rat where "x = of_int T"
  have ax: "\<bar>x\<bar> < 2 ^ 1024 - 2 ^ 970"
  proof -
    have "(of_int \<bar>T\<bar> :: rat) < of_int (2 ^ 1024 - 2 ^ 970)" using assms by (simp only: of_int_less_iff)
    then show ?thesis by (simp add: x_def)
  qed
  have small: "\<bar>fl x\<bar> < 2 ^ 1024"
  proof (cases "T = 0")
    case True
    then show ?thesis by (simp add: x_def)
  next
    case False
    then have q: "quantum x = expo \<bar>x\<bar> - 52" unfolding x_def by (rule quantum_of_int)
    have "\<bar>x\<bar> < 2 powi 1024" using ax by simp
    then have "expo \<bar>x\<bar> < 1024" using False by (intro expo_less) (simp_all add: x_def)
    then have "quantum x \<le> 971" using q by simp
    then have "(2::rat) powi quantum x \<le> 2 powi 971" by (simp only: p2_le_iff)
    then have "\<bar>fl x - x\<bar> \<le> 2 powi 971 / 2" using fl_error [of x] by linarith
    also have "(2::rat) powi 971 / 2 = 2 ^ 970" by simp
    finally have "\<bar>fl x\<bar> \<le> \<bar>x\<bar> + 2 ^ 970" by simp
    with ax show ?thesis by simp
  qed
  have "int_to_float T = Inr (fl x)" using small by (simp add: int_to_float_def Let_def x_def)
  moreover have "0 \<le> fl x" if "0 \<le> T" using that by (intro fl_nonneg) (simp add: x_def)
  moreover have "fl x \<le> 0" if "T \<le> 0" using that by (intro fl_nonpos) (simp add: x_def)
  ultimately show ?thesis by blast
qed


subsection \<open>Signs\<close>

lemma share_nonneg:
  assumes "distribution_percent rt = Inr dp" and "p \<in> set dp"
  shows "0 \<le> snd p"
proof (cases rt)
  case True
  have "0 \<le> fl (fl a + fl (fl (167 / 1000) / 4))" if "0 \<le> a" for a
    using that by (intro fl_nonneg add_nonneg_nonneg divide_nonneg_nonneg) simp_all
  then have "0 \<le> fl (fl a + fl (fl (167 / 1000) / 4))" if "0 \<le> a" for a
    using that fl_nonneg by simp
  with assms True show ?thesis by (auto simp: dp_True intro!: fl_nonneg)
next
  case False
  with assms show ?thesis by (auto simp: dp_False base_distribution_def intro!: fl_nonneg)
qed

lemma raw_for_in_range:
  assumes "\<bar>T\<bar> < 2 ^ 1024 - 2 ^ 970"
  shows "\<exists>raw. raw_for T rt = Inr raw \<and> (0 \<le> T \<longrightarrow> (\<forall>p\<in>set raw. 0 \<le> snd p))"
proof -
  obtain t where t: "int_to_float T = Inr t" and s: "0 \<le> T \<longrightarrow> 0 \<le> t"
    using int_to_float_in_range [OF assms] by blast
  obtain dp where dp: "distribution_percent rt = Inr dp" using dp_keys by blast
  define raw where "raw = map (\<lambda>(loc, pct). (loc, fl (t * pct))) dp"
  have r: "raw_for T rt = Inr raw" by (simp add: raw_for_def dp raw_allocations_def t raw_def)
  have "0 \<le> snd p" if "0 \<le> T" and "p \<in> set raw" for p
  proof -
    from that(2) obtain loc pct where m: "(loc, pct) \<in> set dp" and p: "p = (loc, fl (t * pct))"
      unfolding raw_def by auto
    have "0 \<le> pct" using share_nonneg [OF dp m] by simp
    moreover have "0 \<le> t" using s that(1) by simp
    ultimately show ?thesis unfolding p by (simp add: fl_nonneg)
  qed
  with r show ?thesis by blast
qed

lemma round_up_to_5_nonneg: "0 \<le> x \<Longrightarrow> 0 \<le> round_up_to_5 x"
proof -
  assume "0 \<le> x"
  then have "0 \<le> fl (x / 5)" by (intro fl_nonneg) simp
  then have "0 \<le> \<lceil>fl (x / 5)\<rceil>" by simp
  then show ?thesis by (simp add: round_up_to_5_def)
qed

lemma round_to_nearest_5_nonneg: "0 \<le> x \<Longrightarrow> 0 \<le> round_to_nearest_5 x"
proof -
  assume "0 \<le> x"
  then have "0 \<le> fl (x / 5)" by (intro fl_nonneg) simp
  then have "of_int 0 \<le> fl (x / 5)" by simp
  then have "0 \<le> round_half_even (fl (x / 5))" by (rule round_half_even_ge)
  then show ?thesis by (simp add: round_to_nearest_5_def)
qed

lemma rounded_nonneg:
  "\<forall>p\<in>set raw. 0 \<le> snd p \<Longrightarrow> \<forall>p\<in>set (rounded_allocations raw). 0 \<le> snd p"
  by (auto simp: rounded_allocations_def round_up_to_5_nonneg round_to_nearest_5_nonneg)

lemma nearest_nonneg:
  "\<forall>p\<in>set raw. 0 \<le> snd p \<Longrightarrow>
   \<forall>p\<in>set (map (\<lambda>(loc, points). (loc, round_half_even points)) raw). 0 \<le> snd p"
proof -
  have "0 \<le> round_half_even x" if "0 \<le> x" for x
    using that round_half_even_ge [of 0 x] by simp
  moreover assume "\<forall>p\<in>set raw. 0 \<le> snd p"
  ultimately show ?thesis by auto
qed

lemma update_nonneg:
  "\<forall>p\<in>set al. (0::int) \<le> snd p \<Longrightarrow> 0 \<le> v \<Longrightarrow> \<forall>p\<in>set (AList.update k v al). 0 \<le> snd p"
  by (auto dest!: update_set)

lemma map_of_nonneg:
  assumes "\<forall>p\<in>set al. (0::int) \<le> snd p" and "map_of al k = Some v"
  shows "0 \<le> v"
proof -
  from assms(2) have "(k, v) \<in> set al" by (rule map_of_SomeD)
  with assms(1) have "0 \<le> snd (k, v)" by blast
  then show ?thesis by simp
qed

lemma reconcile_nonneg:
  assumes rear: "map_of r ''Rear'' = Some rear" and front: "map_of r ''Front'' = Some front"
    and nn: "\<forall>p\<in>set r. 0 \<le> snd p" and res: "reconcile T r = Inr res"
  shows "\<forall>p\<in>set res. 0 \<le> snd p"
proof -
  have r0: "\<forall>p\<in>set (AList.update ''Rear'' 0 r). 0 \<le> snd p"
    using nn by (rule update_nonneg) simp
  consider "T < total_rounded r" | "total_rounded r < T" | "total_rounded r = T" by linarith
  then show ?thesis
  proof cases
    case 1
    show ?thesis
    proof (cases "total_rounded r - T \<le> rear")
      case True
      then have e: "res = AList.update ''Rear'' (rear - (total_rounded r - T)) r"
        using res unfolding reconcile_overage [OF rear 1] by simp
      from True have "0 \<le> rear - (total_rounded r - T)" by simp
      with nn show ?thesis unfolding e by (rule update_nonneg)
    next
      case False
      show ?thesis
      proof (cases "map_of r ''Turret''")
        case None
        with False have "res = AList.update ''Rear'' 0 r"
          using res unfolding reconcile_overage [OF rear 1] by simp
        with r0 show ?thesis by simp
      next
        case (Some turret)
        with False have e: "res = AList.update ''Turret''
            (max 0 (turret - (total_rounded r - T - rear))) (AList.update ''Rear'' 0 r)"
          using res unfolding reconcile_overage [OF rear 1] by simp
        have "0 \<le> max 0 (turret - (total_rounded r - T - rear))" by simp
        with r0 show ?thesis unfolding e by (rule update_nonneg)
      qed
    qed
  next
    case 2
    then have e: "res = AList.update ''Front'' (front + (T - total_rounded r)) r"
      using res unfolding reconcile_shortfall [OF front 2] by simp
    have "0 \<le> front" using nn front by (rule map_of_nonneg)
    with 2 have "0 \<le> front + (T - total_rounded r)" by simp
    with nn show ?thesis unfolding e by (rule update_nonneg)
  next
    case 3
    then have "res = r" using res by (simp add: reconcile_exact)
    with nn show ?thesis by simp
  qed
qed

lemma bump_nonneg:
  assumes "\<forall>p\<in>set r. (0::int) \<le> snd p"
  shows "\<forall>p\<in>set (map (\<lambda>(loc, v). (loc, v + 1)) (take n r) @ drop n r). 0 \<le> snd p"
proof
  fix p assume "p \<in> set (map (\<lambda>(loc, v). (loc, v + 1)) (take n r) @ drop n r)"
  then consider q where "q \<in> set (take n r)" and "p = (fst q, snd q + 1)" | "p \<in> set (drop n r)"
    by (auto simp: case_prod_beta)
  then show "0 \<le> snd p"
  proof cases
    case 1
    then have "q \<in> set r" by (auto dest: in_set_takeD)
    with assms have "0 \<le> snd q" by blast
    with 1 show ?thesis by simp
  next
    case 2
    then have "p \<in> set r" by (auto dest: in_set_dropD)
    with assms show ?thesis by blast
  qed
qed

lemma calc_nonneg:
  assumes raw: "raw_for T rt = Inr raw" and nn: "\<forall>p\<in>set raw. 0 \<le> snd p"
    and res: "calculate_armour_distribution T re rt = Inr res"
  shows "\<forall>p\<in>set res. 0 \<le> snd p"
proof (cases re)
  case True
  obtain rear where rear: "map_of (rounded_allocations raw) ''Rear'' = Some rear"
    using rounded_Rear [OF raw] by blast
  obtain front where front: "map_of (rounded_allocations raw) ''Front'' = Some front"
    using rounded_Front [OF raw] by blast
  have "reconcile T (rounded_allocations raw) = Inr res"
    using res True calc_coarse [OF raw] by simp
  with rear front rounded_nonneg [OF nn] show ?thesis by (rule reconcile_nonneg)
next
  case False
  define r where "r = map (\<lambda>(loc, points). (loc, round_half_even points)) raw"
  have n: "nearest_for T rt = Inr r" using raw by (simp add: nearest_for_def r_def)
  have rn: "\<forall>p\<in>set r. 0 \<le> snd p" unfolding r_def using nn by (rule nearest_nonneg)
  have d: "distinct (map fst r)" unfolding r_def nearest_keys using raw by (rule raw_for_distinct)
  show ?thesis
  proof (cases "0 < T - sum_list (map snd r)")
    case pos: True
    then have "0 \<le> T - sum_list (map snd r)" by simp
    from distribute_leftover_all [OF d this] pos res False calc_default_nearest [OF n]
    have "res = map (\<lambda>(loc, v). (loc, v + 1)) (take (nat (T - sum_list (map snd r))) r) @
           drop (nat (T - sum_list (map snd r))) r"
      by simp
    then show ?thesis using bump_nonneg [OF rn] by simp
  next
    case npos: False
    with res False calc_default_nearest [OF n] have "res = r" by simp
    with rn show ?thesis by simp
  qed
qed


section \<open>Scenario A\<close>

text \<open>
  C8. With 480 points, per-facing rounding off and the turret kept, the allocator returns
  Front 144, Left Side 100, Right Side 100, Rear 56 and Turret 80, which add up to 480.
\<close>

theorem scenario_A:
  "calculate_armour_distribution 480 False False =
     Inr [(''Front'', 144), (''Left Side'', 100), (''Right Side'', 100), (''Rear'', 56),
          (''Turret'', 80)]
   \<and> sum_list (map snd [(''Front'', 144 :: int), (''Left Side'', 100), (''Right Side'', 100),
        (''Rear'', 56), (''Turret'', 80)]) = 480"
  by (simp add: eval_defs)

section \<open>The default policy\<close>

text \<open>
  C1. The claim is that the default policy always returns values that add up to the total.
  The default branch hands out a positive leftover but has no branch for a negative one:
  with 3 points the five roundings are 1, 1, 1, 0 and 1, which add up to 4, and that is
  what the allocator returns.
\<close>

theorem default_sum_overshoot:
  "calculate_armour_distribution 3 False False =
     Inr [(''Front'', 1), (''Left Side'', 1), (''Right Side'', 1), (''Rear'', 0), (''Turret'', 1)]
   \<and> sum_list (map snd [(''Front'', 1 :: int), (''Left Side'', 1), (''Right Side'', 1),
        (''Rear'', 0), (''Turret'', 1)]) \<noteq> 3"
  by (simp add: eval_defs)



section \<open>The coarse policy\<close>

text \<open>
  C2. When the per-facing multiples of five add up to more than the total, the overage is
  taken from Rear if Rear holds at least that much. Otherwise Rear becomes 0 and, if the
  turret survives, the rest of the overage is taken from Turret, which does not go below 0.
  No other facing changes, and the keys keep their order.
\<close>

theorem coarse_overage_reconciliation:
  assumes r: "rounded_for T rt = Inr r" and over: "T < total_rounded r"
  shows "\<exists>rear res. map_of r ''Rear'' = Some rear \<and>
      calculate_armour_distribution T True rt = Inr res \<and> map fst res = map fst r \<and>
      (total_rounded r - T \<le> rear \<longrightarrow>
         map_of res = (map_of r)(''Rear'' \<mapsto> rear - (total_rounded r - T))) \<and>
      (rear < total_rounded r - T \<and> rt \<longrightarrow> map_of res = (map_of r)(''Rear'' \<mapsto> 0)) \<and>
      (rear < total_rounded r - T \<and> \<not> rt \<longrightarrow>
         (\<exists>turret. map_of r ''Turret'' = Some turret \<and>
            map_of res = (map_of r)(''Rear'' \<mapsto> 0,
              ''Turret'' \<mapsto> max 0 (turret - (total_rounded r - T - rear)))))"
proof -
  from r obtain raw where raw: "raw_for T rt = Inr raw" and rr: "r = rounded_allocations raw"
    using rounded_forD by blast
  obtain rear where rear: "map_of r ''Rear'' = Some rear"
    unfolding rr using rounded_Rear [OF raw] by blast
  obtain front where front: "map_of r ''Front'' = Some front"
    unfolding rr using rounded_Front [OF raw] by blast
  obtain res where res: "reconcile T r = Inr res" and keys: "map fst res = map fst r"
    using reconcile_keys [OF rear front] by blast
  have c: "calculate_armour_distribution T True rt = Inr res"
    unfolding calc_coarse_rounded [OF r] by (rule res)
  have tur: "(\<exists>turret. map_of r ''Turret'' = Some turret) \<longleftrightarrow> \<not> rt"
    unfolding rr using raw by (rule rounded_Turret)
  have e: "res = (if total_rounded r - T \<le> rear
          then AList.update ''Rear'' (rear - (total_rounded r - T)) r
          else case map_of r ''Turret'' of
                 None \<Rightarrow> AList.update ''Rear'' 0 r
               | Some turret \<Rightarrow>
                   AList.update ''Turret'' (max 0 (turret - (total_rounded r - T - rear)))
                     (AList.update ''Rear'' 0 r))"
    using res unfolding reconcile_overage [OF rear over] by simp
  have 1: "map_of res = (map_of r)(''Rear'' \<mapsto> rear - (total_rounded r - T))"
    if "total_rounded r - T \<le> rear"
    using that e by (simp add: update_conv')
  have 2: "map_of res = (map_of r)(''Rear'' \<mapsto> 0)" if "rear < total_rounded r - T" and rt
  proof -
    from tur \<open>rt\<close> have "map_of r ''Turret'' = None" by simp
    with that e show ?thesis by (simp add: update_conv')
  qed
  have 3: "\<exists>turret. map_of r ''Turret'' = Some turret \<and>
            map_of res = (map_of r)(''Rear'' \<mapsto> 0,
              ''Turret'' \<mapsto> max 0 (turret - (total_rounded r - T - rear)))"
    if "rear < total_rounded r - T" and "\<not> rt"
  proof -
    from tur \<open>\<not> rt\<close> obtain turret where t: "map_of r ''Turret'' = Some turret" by blast
    with that e have "map_of res = (map_of r)(''Rear'' \<mapsto> 0,
              ''Turret'' \<mapsto> max 0 (turret - (total_rounded r - T - rear)))"
      by (simp add: update_conv')
    with t show ?thesis by blast
  qed
  from rear c keys 1 2 3 show ?thesis by blast
qed

text \<open>
  The three cases at 48 points (Rear absorbs the overage of 2), at 22 points (Rear holds 5
  of an overage of 8, Turret loses the other 3) and at 1 point with the turret removed.
\<close>

theorem coarse_overage_reconciliation_witness:
  "(\<exists>res. calculate_armour_distribution 48 True False = Inr res \<and>
      map_of res ''Rear'' = Some 3 \<and> map_of res ''Turret'' = Some 10)
   \<and> (\<exists>res. calculate_armour_distribution 22 True False = Inr res \<and>
      map_of res ''Rear'' = Some 0 \<and> map_of res ''Turret'' = Some 2)
   \<and> (\<exists>res. calculate_armour_distribution 1 True True = Inr res \<and>
      map_of res ''Rear'' = Some 0 \<and> map_of res ''Turret'' = None)"
proof (intro conjI)
  let ?r = "[(''Front'', 15 :: int), (''Left Side'', 10), (''Right Side'', 10), (''Rear'', 5),
             (''Turret'', 10)]"
  have a: "rounded_for 48 False = Inr ?r" by (simp add: eval_defs)
  have b: "48 < total_rounded ?r" by (simp add: total_rounded_def)
  from coarse_overage_reconciliation [OF a b] obtain rear res
    where 1: "map_of ?r ''Rear'' = Some rear"
      and 2: "calculate_armour_distribution 48 True False = Inr res"
      and 3: "total_rounded ?r - 48 \<le> rear \<longrightarrow>
         map_of res = (map_of ?r)(''Rear'' \<mapsto> rear - (total_rounded ?r - 48))"
    by blast
  from 1 have "rear = 5" by simp
  with 3 have "map_of res = (map_of ?r)(''Rear'' \<mapsto> 3)" by (simp add: total_rounded_def)
  then have "map_of res ''Rear'' = Some 3 \<and> map_of res ''Turret'' = Some 10" by simp
  with 2 show "\<exists>res. calculate_armour_distribution 48 True False = Inr res \<and>
      map_of res ''Rear'' = Some 3 \<and> map_of res ''Turret'' = Some 10" by blast
next
  let ?r = "[(''Front'', 10 :: int), (''Left Side'', 5), (''Right Side'', 5), (''Rear'', 5),
             (''Turret'', 5)]"
  have a: "rounded_for 22 False = Inr ?r" by (simp add: eval_defs)
  have b: "22 < total_rounded ?r" by (simp add: total_rounded_def)
  from coarse_overage_reconciliation [OF a b] obtain rear res
    where 1: "map_of ?r ''Rear'' = Some rear"
      and 2: "calculate_armour_distribution 22 True False = Inr res"
      and 3: "rear < total_rounded ?r - 22 \<and> \<not> False \<longrightarrow>
         (\<exists>turret. map_of ?r ''Turret'' = Some turret \<and>
            map_of res = (map_of ?r)(''Rear'' \<mapsto> 0,
              ''Turret'' \<mapsto> max 0 (turret - (total_rounded ?r - 22 - rear))))"
    by blast
  from 1 have "rear = 5" by simp
  with 3 have "map_of res = (map_of ?r)(''Rear'' \<mapsto> 0, ''Turret'' \<mapsto> 2)"
    by (simp add: total_rounded_def)
  then have "map_of res ''Rear'' = Some 0 \<and> map_of res ''Turret'' = Some 2" by simp
  with 2 show "\<exists>res. calculate_armour_distribution 22 True False = Inr res \<and>
      map_of res ''Rear'' = Some 0 \<and> map_of res ''Turret'' = Some 2" by blast
next
  let ?r = "[(''Front'', 5 :: int), (''Left Side'', 0), (''Right Side'', 0), (''Rear'', 0)]"
  have a: "rounded_for 1 True = Inr ?r" by (simp add: eval_defs)
  have b: "1 < total_rounded ?r" by (simp add: total_rounded_def)
  from coarse_overage_reconciliation [OF a b] obtain rear res
    where 1: "map_of ?r ''Rear'' = Some rear"
      and 2: "calculate_armour_distribution 1 True True = Inr res"
      and 3: "rear < total_rounded ?r - 1 \<and> True \<longrightarrow>
         map_of res = (map_of ?r)(''Rear'' \<mapsto> 0)"
    by blast
  from 1 have "rear = 0" by simp
  with 3 have "map_of res = (map_of ?r)(''Rear'' \<mapsto> 0)" by (simp add: total_rounded_def)
  then have "map_of res ''Rear'' = Some 0 \<and> map_of res ''Turret'' = None" by simp
  with 2 show "\<exists>res. calculate_armour_distribution 1 True True = Inr res \<and>
      map_of res ''Rear'' = Some 0 \<and> map_of res ''Turret'' = None" by blast
qed




text \<open>
  C9. With the turret removed, when the rounded total exceeds the total by more than Rear
  holds, Rear becomes 0 and nothing else changes: the result adds up to the rounded total
  minus Rear's rounded value, which is still more than the total.
\<close>

theorem coarse_over_allocation:
  assumes r: "rounded_for T True = Inr r" and over: "T < total_rounded r"
    and rear: "map_of r ''Rear'' = Some rear" and small: "rear < total_rounded r - T"
  shows "calculate_armour_distribution T True True = Inr (AList.update ''Rear'' 0 r)
    \<and> map_of (AList.update ''Rear'' 0 r) = (map_of r)(''Rear'' \<mapsto> 0)
    \<and> sum_list (map snd (AList.update ''Rear'' 0 r)) = total_rounded r - rear
    \<and> T < sum_list (map snd (AList.update ''Rear'' 0 r))"
proof -
  from r obtain raw where raw: "raw_for T True = Inr raw" and rr: "r = rounded_allocations raw"
    using rounded_forD by blast
  have "\<not> (\<exists>turret. map_of r ''Turret'' = Some turret)"
    unfolding rr using rounded_Turret [OF raw] by simp
  then have nt: "map_of r ''Turret'' = None" by simp
  have c: "calculate_armour_distribution T True True = Inr (AList.update ''Rear'' 0 r)"
    unfolding calc_coarse_rounded [OF r] reconcile_overage [OF rear over]
    using small nt by simp
  have d: "distinct (map fst r)" unfolding rounded_for_keys [OF r] by simp
  have s: "sum_list (map snd (AList.update ''Rear'' 0 r)) = total_rounded r - rear"
    using update_sum [OF rear d, of 0] by (simp add: total_rounded_def)
  from c s small show ?thesis by (simp add: update_conv')
qed

theorem coarse_over_allocation_witness:
  "rounded_for 2 True = Inr [(''Front'', 5), (''Left Side'', 0), (''Right Side'', 0), (''Rear'', 0)]
   \<and> calculate_armour_distribution 2 True True =
       Inr [(''Front'', 5), (''Left Side'', 0), (''Right Side'', 0), (''Rear'', 0)]
   \<and> (2 :: int) < 5"
proof -
  let ?r = "[(''Front'', 5 :: int), (''Left Side'', 0), (''Right Side'', 0), (''Rear'', 0)]"
  have a: "rounded_for 2 True = Inr ?r" by (simp add: eval_defs)
  have b: "2 < total_rounded ?r" by (simp add: total_rounded_def)
  have c: "map_of ?r ''Rear'' = Some 0" by simp
  have d: "0 < total_rounded ?r - 2" by (simp add: total_rounded_def)
  from coarse_over_allocation [OF a b c d] a show ?thesis by simp
qed

section \<open>Turret removal\<close>

lemma shares_sum:
  "fl (fl (30 / 100) + fl (fl (167 / 1000) / 4)) + fl (fl (208 / 1000) + fl (fl (167 / 1000) / 4))
   + fl (fl (208 / 1000) + fl (fl (167 / 1000) / 4)) + fl (fl (117 / 1000) + fl (fl (167 / 1000) / 4)) = 1"
  by (simp add: eval_defs)

lemma shares_float_sum:
  "foldl (\<lambda>a x. fl (a + x)) 0
     [fl (fl (30 / 100) + fl (fl (167 / 1000) / 4)), fl (fl (208 / 1000) + fl (fl (167 / 1000) / 4)),
      fl (fl (208 / 1000) + fl (fl (167 / 1000) / 4)), fl (fl (117 / 1000) + fl (fl (167 / 1000) / 4))] = 1"
  by (simp add: eval_defs)

text \<open>
  C6. With the turret removed the result never has a Turret key, and the four shares in
  use, each a base share plus a quarter of the turret share, add up to exactly 1, both as
  the exact sum of the four doubles and when added up in floating point.
\<close>

theorem turret_removal:
  "(calculate_armour_distribution T round_each True = Inr res \<longrightarrow>
      ''Turret'' \<notin> set (map fst res))
   \<and> distribution_percent True =
       Inr [(''Front'', fl (fl (30 / 100) + fl (fl (167 / 1000) / 4))),
            (''Left Side'', fl (fl (208 / 1000) + fl (fl (167 / 1000) / 4))),
            (''Right Side'', fl (fl (208 / 1000) + fl (fl (167 / 1000) / 4))),
            (''Rear'', fl (fl (117 / 1000) + fl (fl (167 / 1000) / 4)))]
   \<and> fl (fl (30 / 100) + fl (fl (167 / 1000) / 4)) + fl (fl (208 / 1000) + fl (fl (167 / 1000) / 4))
     + fl (fl (208 / 1000) + fl (fl (167 / 1000) / 4)) + fl (fl (117 / 1000) + fl (fl (167 / 1000) / 4)) = 1
   \<and> foldl (\<lambda>a x. fl (a + x)) 0
     [fl (fl (30 / 100) + fl (fl (167 / 1000) / 4)), fl (fl (208 / 1000) + fl (fl (167 / 1000) / 4)),
      fl (fl (208 / 1000) + fl (fl (167 / 1000) / 4)), fl (fl (117 / 1000) + fl (fl (167 / 1000) / 4))] = 1"
proof -
  have "''Turret'' \<notin> set (map fst res)"
    if c: "calculate_armour_distribution T round_each True = Inr res"
  proof -
    obtain raw where raw: "raw_for T True = Inr raw" using calc_Inr_raw [OF c] by blast
    from calc_keys [OF raw, of round_each] c
    have "map fst res = [''Front'', ''Left Side'', ''Right Side'', ''Rear'']" by simp
    then show ?thesis by simp
  qed
  with dp_True shares_sum shares_float_sum show ?thesis by (intro conjI impI)
qed

theorem turret_removal_witness:
  "calculate_armour_distribution 100 False True =
     Inr [(''Front'', 34), (''Left Side'', 25), (''Right Side'', 25), (''Rear'', 16)]
   \<and> ''Turret'' \<notin> set (map fst [(''Front'', 34 :: int), (''Left Side'', 25), (''Right Side'', 25),
        (''Rear'', 16)])"
proof -
  let ?res = "[(''Front'', 34 :: int), (''Left Side'', 25), (''Right Side'', 25), (''Rear'', 16)]"
  have a: "calculate_armour_distribution 100 False True = Inr ?res" by (simp add: eval_defs)
  from turret_removal [of 100 False ?res] a have "''Turret'' \<notin> set (map fst ?res)" by blast
  with a show ?thesis by (intro conjI)
qed

end
